theory Spec2Isabelle
  imports Main "HOL-Library.AList"
begin

section \<open>Python values\<close>

text \<open>
  The pipeline is written over Python's dynamically typed values.  A specification is built
  from tuples (options), dicts (stages), lists (sequences) and atoms; the same values are
  the sink identifiers and the data that the stages pass around.  A callable is an opaque
  identifier: what it computes is a parameter of the executor.

  A dict is represented by its items in iteration order.  A dict that the program builds
  iterates in the order in which its keys were first stored.
\<close>

datatype val =
    PNone
  | PInt int
  | PStr string
  | PFun nat
  | PTuple "val list"
  | PList "val list"
  | PDict "(val \<times> val) list"

text \<open>
  The exceptions of the program: the three that the interpreter raises on the operations
  used here, and whatever a stage function raises itself.  A stage function may raise an
  instance of \<open>Exception\<close> (\<open>Raised\<close>) or a \<open>BaseException\<close> that is not one, such as
  \<open>SystemExit\<close> or \<open>KeyboardInterrupt\<close> (\<open>RaisedBase\<close>); only the former is
  caught by \<open>except Exception\<close>.
\<close>

datatype error = KeyError val | TypeError | IndexError | Raised nat | RaisedBase nat

fun is_exception :: "error \<Rightarrow> bool" where
  "is_exception (RaisedBase n) = False"
| "is_exception e = True"

type_synonym env = "(val \<times> val) list"

text \<open>The type of the interpretation of callables: positional arguments, keyword arguments.\<close>

type_synonym callable = "nat \<Rightarrow> val list \<Rightarrow> (string \<times> val) list \<Rightarrow> error + val"

subsection \<open>Built-in operations\<close>

text \<open>Lists and dicts are unhashable, a tuple is hashable when its elements are.\<close>

fun py_hashable :: "val \<Rightarrow> bool" where
  "py_hashable (PList xs) = False"
| "py_hashable (PDict d) = False"
| "py_hashable (PTuple xs) = list_all py_hashable xs"
| "py_hashable v = True"

text \<open>\<open>d[k] = v\<close> on a dict whose key is known to be hashable: the key keeps its place
  when it is already there, and goes to the end otherwise.\<close>

definition dict_setitem :: "('k \<times> 'v) list \<Rightarrow> 'k \<Rightarrow> 'v \<Rightarrow> ('k \<times> 'v) list" where
  "dict_setitem d k v = AList.update k v d"

text \<open>\<open>dict(pairs)\<close>: the pairs are stored one after the other.\<close>

definition py_dict :: "('k \<times> 'v) list \<Rightarrow> ('k \<times> 'v) list" where
  "py_dict pairs = foldl (\<lambda>d (k, v). dict_setitem d k v) [] pairs"

text \<open>\<open>d[k]\<close> and \<open>d[k] = v\<close> for an arbitrary key value.\<close>

definition py_getitem :: "env \<Rightarrow> val \<Rightarrow> error + val" where
  "py_getitem d k =
     (if \<not> py_hashable k then Inl TypeError
      else case map_of d k of None \<Rightarrow> Inl (KeyError k) | Some v \<Rightarrow> Inr v)"

definition py_setitem :: "env \<Rightarrow> val \<Rightarrow> val \<Rightarrow> error + env" where
  "py_setitem d k v = (if \<not> py_hashable k then Inl TypeError else Inr (dict_setitem d k v))"

text \<open>\<open>t[i]\<close> for a tuple and an index produced by \<open>enumerate\<close>.\<close>

definition tuple_getitem :: "val list \<Rightarrow> nat \<Rightarrow> error + val" where
  "tuple_getitem t i = (if i < length t then Inr (t ! i) else Inl IndexError)"

text \<open>\<open>for x in v\<close>: the elements of a list or tuple, the keys of a dict, the characters
  of a string; nothing else here is iterable.\<close>

fun py_iter :: "val \<Rightarrow> error + val list" where
  "py_iter (PList xs) = Inr xs"
| "py_iter (PTuple xs) = Inr xs"
| "py_iter (PDict d) = Inr (map fst d)"
| "py_iter (PStr s) = Inr (map (\<lambda>c. PStr [c]) s)"
| "py_iter v = Inl TypeError"

text \<open>\<open>itertools.product(*pools)\<close>, as the library documents it: the result starts
  as one empty combination and every pool extends each combination by each of its
  elements.\<close>

definition itertools_product :: "'a list list \<Rightarrow> 'a list list" where
  "itertools_product pools =
     foldl (\<lambda>result pool. concat (map (\<lambda>x. map (\<lambda>y. x @ [y]) pool) result)) [[]] pools"

text \<open>\<open>f(*args, **kwargs)\<close>: only a callable can be called.\<close>

fun py_call :: "callable \<Rightarrow> val \<Rightarrow> val list \<Rightarrow> (string \<times> val) list \<Rightarrow> error + val" where
  "py_call call (PFun f) args kwargs = call f args kwargs"
| "py_call call v args kwargs = Inl TypeError"

text \<open>The value after \<open>**\<close> has to be a mapping whose keys are strings.\<close>

fun keyword_name :: "val \<Rightarrow> string option" where
  "keyword_name (PStr s) = Some s"
| "keyword_name v = None"

fun keyword_arguments :: "val \<Rightarrow> error + (string \<times> val) list" where
  "keyword_arguments (PDict d) =
     (if list_all (\<lambda>(k, v). keyword_name k \<noteq> None) d
      then Inr (map (\<lambda>(k, v). (the (keyword_name k), v)) d)
      else Inl TypeError)"
| "keyword_arguments v = Inl TypeError"

section \<open>The expander: \<open>Pipeline.__assemble\<close>\<close>

text \<open>
  Each branch is the loop of the source: the option branch extends one list by the
  expansion of \<open>specification[i]\<close>, the dict branch stores the expansion of
  \<open>specification[key]\<close> under \<open>key\<close> and zips the keys with every element of the
  product of the stored lists, the list branch appends the expansions and takes their
  product.
\<close>

function assemble :: "val \<Rightarrow> val list" where
  "assemble (PTuple specification) =
     foldl (\<lambda>ret (i, val). ret @ assemble (specification ! i)) [] (enumerate 0 specification)"
| "assemble (PDict specification) =
     (let ret = foldl (\<lambda>ret key.
                   case map_of specification key of
                     Some sub \<Rightarrow> dict_setitem ret key (assemble sub)
                   | None \<Rightarrow> ret) [] (map fst specification)
      in map (\<lambda>item. PDict (py_dict (zip (map fst ret) item)))
           (itertools_product (map snd ret)))"
| "assemble (PList specification) =
     (let ret = foldl (\<lambda>ret (i, val). ret @ [assemble (specification ! i)]) []
                  (enumerate 0 specification)
      in map PList (itertools_product ret))"
| "assemble PNone = [PNone]"
| "assemble (PInt n) = [PInt n]"
| "assemble (PStr s) = [PStr s]"
| "assemble (PFun f) = [PFun f]"
  by pat_completeness auto
termination
proof (relation "measure size", goal_cases)
  case 1
  show ?case by simp
next
  case (2 spec ret x i val)
  then have "i < length spec"
    by (auto simp: in_set_enumerate_eq)
  then have "size (spec ! i) \<le> size_list size spec"
    by (intro size_list_estimation'[of "spec ! i"]) simp_all
  then show ?case by simp
next
  case (3 spec ret key sub)
  then have "(key, sub) \<in> set spec"
    by (simp add: map_of_SomeD)
  then have "size_prod size size (key, sub) \<le> size_list (size_prod size size) spec"
    by (intro size_list_estimation'[of "(key, sub)"]) simp_all
  then show ?case by simp
next
  case (4 spec ret x i val)
  then have "i < length spec"
    by (auto simp: in_set_enumerate_eq)
  then have "size (spec ! i) \<le> size_list size spec"
    by (intro size_list_estimation'[of "spec ! i"]) simp_all
  then show ?case by simp
qed

text \<open>
  A specification without option nodes: no tuple among the nodes that the expander visits
  (the children of lists and tuples, the values of dicts).
\<close>

fun no_options :: "val \<Rightarrow> bool" where
  "no_options (PTuple alternatives) = False"
| "no_options (PList children) = list_all no_options children"
| "no_options (PDict d) = list_all (\<lambda>(k, v). no_options v) d"
| "no_options v = True"

text \<open>The representation invariant of dicts: an item list names each key once.\<close>

fun distinct_keys :: "val \<Rightarrow> bool" where
  "distinct_keys (PTuple xs) = list_all distinct_keys xs"
| "distinct_keys (PList xs) = list_all distinct_keys xs"
| "distinct_keys (PDict d) = (distinct (map fst d) \<and> list_all (\<lambda>(k, v). distinct_keys v) d)"
| "distinct_keys v = True"

section \<open>Flattening: \<open>Pipeline.__construct\<close>\<close>

text \<open>The loop of \<open>__flatten_nested_list\<close> over the items of its argument: a list item
  is flattened in place, any other item is kept.\<close>

fun flatten_items :: "val list \<Rightarrow> val list" where
  "flatten_items [] = []"
| "flatten_items (PList sub # rest) = flatten_items sub @ flatten_items rest"
| "flatten_items (item # rest) = item # flatten_items rest"

definition flatten_nested_list :: "val \<Rightarrow> error + val list" where
  "flatten_nested_list nested_list =
     (case py_iter nested_list of
        Inl e \<Rightarrow> Inl e
      | Inr items \<Rightarrow> Inr (flatten_items items))"

definition construct :: "val \<Rightarrow> error + val list" where
  "construct specification = flatten_nested_list specification"

section \<open>The executor: \<open>Pipeline.__run_pipeline\<close>\<close>

text \<open>The loop \<open>for inp in stage['in']: inputs.append(data[inp])\<close>.\<close>

fun resolve_inputs :: "env \<Rightarrow> val list \<Rightarrow> error + val list" where
  "resolve_inputs data [] = Inr []"
| "resolve_inputs data (inp # rest) =
     (case py_getitem data inp of
        Inl e \<Rightarrow> Inl e
      | Inr v \<Rightarrow>
          (case resolve_inputs data rest of
             Inl e \<Rightarrow> Inl e
           | Inr vs \<Rightarrow> Inr (v # vs)))"

text \<open>
  The first half of the loop body: the inputs are read and the function is called, with
  the keyword arguments of the stage when it has the key \<open>kwargs\<close>.  Subscripting
  anything but a dict with \<open>'in'\<close> raises a \<open>TypeError\<close>.
\<close>

definition stage_call :: "callable \<Rightarrow> val \<Rightarrow> env \<Rightarrow> error + val" where
  "stage_call call stage data =
     (case stage of
        PDict st \<Rightarrow>
          (case py_getitem st (PStr ''in'') of
             Inl e \<Rightarrow> Inl e
           | Inr ins \<Rightarrow>
          (case py_iter ins of
             Inl e \<Rightarrow> Inl e
           | Inr inps \<Rightarrow>
          (case resolve_inputs data inps of
             Inl e \<Rightarrow> Inl e
           | Inr inputs \<Rightarrow>
               if PStr ''kwargs'' \<in> set (map fst st) then
                 (case py_getitem st (PStr ''function'') of
                    Inl e \<Rightarrow> Inl e
                  | Inr f \<Rightarrow>
                 (case py_getitem st (PStr ''kwargs'') of
                    Inl e \<Rightarrow> Inl e
                  | Inr kw \<Rightarrow>
                 (case keyword_arguments kw of
                    Inl e \<Rightarrow> Inl e
                  | Inr kws \<Rightarrow> py_call call f inputs kws)))
               else
                 (case py_getitem st (PStr ''function'') of
                    Inl e \<Rightarrow> Inl e
                  | Inr f \<Rightarrow> py_call call f inputs []))))
      | _ \<Rightarrow> Inl TypeError)"

text \<open>\<open>if type(outputs) != tuple: outputs = (outputs, )\<close>\<close>

fun normalize_outputs :: "val \<Rightarrow> val list" where
  "normalize_outputs (PTuple vs) = vs"
| "normalize_outputs v = [v]"

text \<open>The loop \<open>for i, out in enumerate(stage['out']): data[out] = outputs[i]\<close>;
  the right-hand side is evaluated before the store.\<close>

fun write_outputs :: "val list \<Rightarrow> (nat \<times> val) list \<Rightarrow> env \<Rightarrow> error + env" where
  "write_outputs outputs [] data = Inr data"
| "write_outputs outputs ((i, out) # rest) data =
     (case tuple_getitem outputs i of
        Inl e \<Rightarrow> Inl e
      | Inr v \<Rightarrow>
          (case py_setitem data out v of
             Inl e \<Rightarrow> Inl e
           | Inr data' \<Rightarrow> write_outputs outputs rest data'))"

text \<open>\<open>stage['out']\<close> and its iteration, for a stage on which the call has succeeded.\<close>

definition stage_out :: "val \<Rightarrow> error + val list" where
  "stage_out stage =
     (case stage of
        PDict st \<Rightarrow>
          (case py_getitem st (PStr ''out'') of
             Inl e \<Rightarrow> Inl e
           | Inr out \<Rightarrow> py_iter out)
      | _ \<Rightarrow> Inl TypeError)"

text \<open>One iteration of \<open>for stage in pipeline\<close>.\<close>

definition run_stage :: "callable \<Rightarrow> val \<Rightarrow> env \<Rightarrow> error + env" where
  "run_stage call stage data =
     (case stage_call call stage data of
        Inl e \<Rightarrow> Inl e
      | Inr outputs \<Rightarrow>
          (case stage_out stage of
             Inl e \<Rightarrow> Inl e
           | Inr outs \<Rightarrow> write_outputs (normalize_outputs outputs) (enumerate 0 outs) data))"

fun run_stages :: "callable \<Rightarrow> val list \<Rightarrow> env \<Rightarrow> error + env" where
  "run_stages call [] data = Inr data"
| "run_stages call (stage # rest) data =
     (case run_stage call stage data of
        Inl e \<Rightarrow> Inl e
      | Inr data' \<Rightarrow> run_stages call rest data')"

text \<open>
  The environment before the first stage: the named inputs, then the stage list under
  \<open>'pipeline'\<close>, then the positional inputs under their indices.
\<close>

definition initial_data :: "val list \<Rightarrow> val list \<Rightarrow> (string \<times> val) list \<Rightarrow> env" where
  "initial_data pipeline args kwargs =
     (let data = map (\<lambda>(name, v). (PStr name, v)) kwargs;
          data = dict_setitem data (PStr ''pipeline'') (PList pipeline)
      in foldl (\<lambda>data (i, arg). dict_setitem data (PInt (int i)) arg) data (enumerate 0 args))"

text \<open>
  The signature is \<open>__run_pipeline(self, pipeline, *args, **kwargs)\<close> and the call is
  \<open>self.__run_pipeline(pipeline, *args, **kwargs)\<close>.  Python binds \<open>self\<close> and
  \<open>pipeline\<close> by position, so a keyword argument with one of these names gives the
  parameter a second value: the call raises a \<open>TypeError\<close> and the body does not start.
\<close>

definition run_pipeline ::
  "callable \<Rightarrow> val list \<Rightarrow> val list \<Rightarrow> (string \<times> val) list \<Rightarrow> error + val" where
  "run_pipeline call pipeline args kwargs =
     (if ''self'' \<in> set (map fst kwargs) \<or> ''pipeline'' \<in> set (map fst kwargs)
      then Inl TypeError
      else case run_stages call pipeline (initial_data pipeline args kwargs) of
             Inl e \<Rightarrow> Inl e
           | Inr data \<Rightarrow> Inr (PDict data))"

section \<open>The driver: \<open>Pipeline.transform\<close>\<close>

text \<open>
  The loop over the concrete specifications.  \<open>__construct\<close> is called outside the
  \<open>try\<close>, so its exception leaves \<open>transform\<close>.  What \<open>__run_pipeline\<close> raises
  is caught (and printed) when it is an instance of \<open>Exception\<close>, and the loop goes on
  with the results it has; anything else leaves \<open>transform\<close> as well.
\<close>

fun transform_loop ::
  "callable \<Rightarrow> val list \<Rightarrow> (string \<times> val) list \<Rightarrow> val list \<Rightarrow> val list \<Rightarrow> error + val list"
where
  "transform_loop call args kwargs [] results = Inr results"
| "transform_loop call args kwargs (specification # rest) results =
     (case construct specification of
        Inl e \<Rightarrow> Inl e
      | Inr pipeline \<Rightarrow>
          (case run_pipeline call pipeline args kwargs of
             Inr result \<Rightarrow> transform_loop call args kwargs rest (results @ [result])
           | Inl e \<Rightarrow>
               if is_exception e then transform_loop call args kwargs rest results
               else Inl e))"

text \<open>
  The signature is \<open>transform(self, *args, **kwargs)\<close>: a named input \<open>self\<close> gives
  the first parameter a second value, and the call raises a \<open>TypeError\<close> before the
  body starts.
\<close>

definition transform ::
  "callable \<Rightarrow> val \<Rightarrow> val list \<Rightarrow> (string \<times> val) list \<Rightarrow> error + val list" where
  "transform call specification args kwargs =
     (if ''self'' \<in> set (map fst kwargs) then Inl TypeError
      else transform_loop call args kwargs (assemble specification) [])"

section \<open>Post-processing: \<open>Pipeline.filter_results\<close>\<close>

text \<open>
  \<open>_flatten_nested_dict\<close> collects pairs in a list and returns \<open>dict(ret)\<close>: for a
  list the items of its flattened elements, for a dict each of its own items followed,
  when the value is a dict or a list, by the items of the flattened value.
\<close>

fun is_dict_or_list :: "val \<Rightarrow> bool" where
  "is_dict_or_list (PDict d) = True"
| "is_dict_or_list (PList xs) = True"
| "is_dict_or_list v = False"

function flatten_nested_dict :: "val \<Rightarrow> env" where
  "flatten_nested_dict (PList nested_dict) =
     py_dict (foldl (\<lambda>ret i. ret @ flatten_nested_dict i) [] nested_dict)"
| "flatten_nested_dict (PDict nested_dict) =
     py_dict (foldl (\<lambda>ret k.
                case map_of nested_dict k of
                  Some v \<Rightarrow>
                    (if is_dict_or_list v then (ret @ [(k, v)]) @ flatten_nested_dict v
                     else ret @ [(k, v)])
                | None \<Rightarrow> ret) [] (map fst nested_dict))"
| "flatten_nested_dict PNone = py_dict []"
| "flatten_nested_dict (PInt n) = py_dict []"
| "flatten_nested_dict (PStr s) = py_dict []"
| "flatten_nested_dict (PFun f) = py_dict []"
| "flatten_nested_dict (PTuple xs) = py_dict []"
  by pat_completeness auto
termination
proof (relation "measure size", goal_cases)
  case 1
  show ?case by simp
next
  case (2 nested_dict ret i)
  then have "size i \<le> size_list size nested_dict"
    by (intro size_list_estimation'[of i]) simp_all
  then show ?case by simp
next
  case (3 nested_dict ret k v)
  then have "(k, v) \<in> set nested_dict"
    by (simp add: map_of_SomeD)
  then have "size_prod size size (k, v) \<le> size_list (size_prod size size) nested_dict"
    by (intro size_list_estimation'[of "(k, v)"]) simp_all
  then show ?case by simp
qed

text \<open>The results are the dicts that \<open>transform\<close> returns; \<open>columns\<close> is \<open>None\<close> or a
  list of keys.\<close>

definition filter_columns :: "val list \<Rightarrow> env \<Rightarrow> env" where
  "filter_columns columns result =
     py_dict (concat (map (\<lambda>k. if k \<in> set columns
                               then (case map_of result k of Some v \<Rightarrow> [(k, v)] | None \<Rightarrow> [])
                               else []) (map fst result)))"

definition filter_results :: "env list \<Rightarrow> val list option \<Rightarrow> bool \<Rightarrow> env list" where
  "filter_results results columns flatten =
     map (\<lambda>result.
            let result = (if flatten then flatten_nested_dict (PDict result) else result)
            in (case columns of None \<Rightarrow> result | Some cs \<Rightarrow> filter_columns cs result))
         results"

section \<open>Auxiliary notions and examples\<close>

text \<open>A stage dict that has no key \<open>out\<close>.\<close>

fun lacks_out :: "val \<Rightarrow> bool" where
  "lacks_out (PDict st) = (PStr ''out'' \<notin> set (map fst st))"
| "lacks_out v = False"

text \<open>What the flattening of a dict adds after an item with the value \<open>v\<close>: the items
  of the flattened \<open>v\<close> when \<open>v\<close> is a dict or a list, nothing otherwise.\<close>

definition promoted :: "val \<Rightarrow> env" where
  "promoted v = (if is_dict_or_list v then flatten_nested_dict v else [])"

text \<open>
  The entries of a nested value in the order of the depth-first traversal: every item of
  a dict, each followed at once by the entries of its value, and the entries of the
  elements of a list one after the other.  Nothing but dicts and lists is entered.
\<close>

fun traversal_entries :: "val \<Rightarrow> (val \<times> val) list" where
  "traversal_entries (PDict d) = concat (map (\<lambda>(k, v). (k, v) # traversal_entries v) d)"
| "traversal_entries (PList xs) = concat (map traversal_entries xs)"
| "traversal_entries v = []"

text \<open>
  An interpretation of callables for the examples: number 0 is \<open>lambda x: x + 1\<close> on
  integers, number 1 is \<open>lambda: (7, 8, 9)\<close>; any other callable raises an exception of
  its own.
\<close>

definition example_call :: callable where
  "example_call f args kwargs =
     (if f = 0 then (case args of [PInt a] \<Rightarrow> Inr (PInt (a + 1)) | _ \<Rightarrow> Inl TypeError)
      else if f = 1 then (case args of [] \<Rightarrow> Inr (PTuple [PInt 7, PInt 8, PInt 9]) | _ \<Rightarrow> Inl TypeError)
      else Inl (Raised f))"

text \<open>Example stages: a stage over the first positional input, a stage with two outputs
  that returns three values, a stage that reads a sink nobody writes, a stage dict
  without \<open>out\<close>, and one without \<open>out\<close> whose function raises.\<close>

definition stage_increment :: val where
  "stage_increment =
     PDict [(PStr ''function'', PFun 0), (PStr ''in'', PList [PInt 0]), (PStr ''out'', PList [PInt 1])]"

definition stage_triple :: val where
  "stage_triple =
     PDict [(PStr ''function'', PFun 1), (PStr ''in'', PList []),
            (PStr ''out'', PList [PStr ''a'', PStr ''b''])]"

definition stage_missing_sink :: val where
  "stage_missing_sink =
     PDict [(PStr ''function'', PFun 0), (PStr ''in'', PList [PStr ''undeclared'']),
            (PStr ''out'', PList [PInt 1])]"

definition stage_without_out :: val where
  "stage_without_out = PDict [(PStr ''function'', PFun 0), (PStr ''in'', PList [PInt 0])]"

definition stage_raising_without_out :: val where
  "stage_raising_without_out = PDict [(PStr ''function'', PFun 2), (PStr ''in'', PList [PInt 0])]"

section \<open>Properties of the expander\<close>

subsection \<open>The loops as list functions\<close>

lemma foldl_enumerate_nth:
  "foldl (\<lambda>ret (i, v). ret @ g (xs ! i)) acc (enumerate 0 xs) = acc @ concat (map g xs)"
proof -
  have "foldl (\<lambda>ret (i, v). ret @ g (xs ! i)) acc (enumerate 0 xs)
      = foldl (\<lambda>ret (i, v). ret @ g v) acc (enumerate 0 xs)"
    by (rule foldl_cong) (auto simp: in_set_enumerate_eq)
  also have "\<dots> = acc @ concat (map g xs)"
  proof -
    have "foldl (\<lambda>ret (i, v). ret @ g v) acc (enumerate n ys) = acc @ concat (map g ys)" for n ys
      by (induction ys arbitrary: acc n) simp_all
    then show ?thesis .
  qed
  finally show ?thesis .
qed

lemma product_extend:
  "concat (map (\<lambda>z. map ((@) z) P) (map (\<lambda>y. x @ [y]) pool))
   = map ((@) x) (concat (map (\<lambda>y. map (Cons y) P) pool))"
  by (induction pool) (simp_all add: comp_def)

lemma product_step:
  "foldl (\<lambda>result pool. concat (map (\<lambda>x. map (\<lambda>y. x @ [y]) pool) result)) acc pools
   = concat (map (\<lambda>x. map ((@) x) (product_lists pools)) acc)"
proof (induction pools arbitrary: acc)
  case Nil
  show ?case by (induction acc) simp_all
next
  case (Cons pool pools)
  have "concat (map (\<lambda>x. map ((@) x) (product_lists pools))
                 (concat (map (\<lambda>x. map (\<lambda>y. x @ [y]) pool) acc)))
      = concat (map (\<lambda>x. map ((@) x) (product_lists (pool # pools))) acc)"
    by (induction acc) (simp_all add: product_extend del: map_map)
  then show ?case by (simp add: Cons.IH)
qed

lemma itertools_product_eq: "itertools_product pools = product_lists pools"
  by (simp add: itertools_product_def product_step map_idI)

lemma assemble_option: "assemble (PTuple xs) = concat (map assemble xs)"
  by (simp add: foldl_enumerate_nth[where g = assemble and acc = "[]", simplified])

lemma assemble_sequence: "assemble (PList xs) = map PList (product_lists (map assemble xs))"
  using foldl_enumerate_nth[where g = "\<lambda>x. [assemble x]" and acc = "[]" and xs = xs]
  by (simp add: itertools_product_eq)


lemma length_product_lists_prod:
  "length (product_lists xss) = prod_list (map length xss)"
  by (induction xss) (simp_all add: length_concat comp_def sum_list_triv)

lemma concat_map_nth:
  assumes "\<And>x. x \<in> set xs \<Longrightarrow> length (f x) = n" and "j < length xs * n"
  shows "concat (map f xs) ! j = f (xs ! (j div n)) ! (j mod n)"
  using assms
proof (induction xs arbitrary: j)
  case Nil
  then show ?case by simp
next
  case (Cons x xs)
  have n: "length (f x) = n" using Cons.prems(1) by simp
  show ?case
  proof (cases "j < n")
    case True
    then show ?thesis by (simp add: nth_append n)
  next
    case False
    then have j: "j - n < length xs * n" using Cons.prems(2) by simp
    have "0 < n" using Cons.prems(2) False by (cases n) simp_all
    from False have d: "j div n = Suc ((j - n) div n)" and m: "j mod n = (j - n) mod n"
      using \<open>0 < n\<close> by (simp_all add: le_div_geq le_mod_geq)
    have "concat (map f (x # xs)) ! j = concat (map f xs) ! (j - n)"
      using False by (simp add: nth_append n)
    also have "\<dots> = f (xs ! ((j - n) div n)) ! ((j - n) mod n)"
      using Cons.IH[OF _ j] Cons.prems(1) by simp
    finally show ?thesis by (simp add: d m)
  qed
qed

lemma product_lists_nth:
  assumes "j < prod_list (map length xss)" and "p < length xss"
  shows "product_lists xss ! j ! p
       = (xss ! p) ! ((j div prod_list (map length (drop (Suc p) xss))) mod length (xss ! p))"
  using assms
proof (induction xss arbitrary: j p)
  case Nil
  then show ?case by simp
next
  case (Cons xs xss)
  let ?N = "prod_list (map length xss)"
  have len: "\<And>x. x \<in> set xs \<Longrightarrow> length (map (Cons x) (product_lists xss)) = ?N"
    by (simp add: length_product_lists_prod)
  have j: "j < length xs * ?N" using Cons.prems(1) by simp
  then have N: "0 < ?N" by (cases ?N) simp_all
  have row: "product_lists (xs # xss) ! j = xs ! (j div ?N) # product_lists xss ! (j mod ?N)"
  proof -
    have "product_lists (xs # xss) ! j
        = map (Cons (xs ! (j div ?N))) (product_lists xss) ! (j mod ?N)"
      using concat_map_nth[of xs "\<lambda>x. map (Cons x) (product_lists xss)" ?N j] len j by simp
    then show ?thesis using N by (simp add: length_product_lists_prod)
  qed
  show ?case
  proof (cases p)
    case 0
    have "j div ?N < length xs" using j N by (simp add: less_mult_imp_div_less)
    then show ?thesis using 0 row by simp
  next
    case (Suc q)
    then have q: "q < length xss" using Cons.prems(2) by simp
    let ?M = "prod_list (map length (drop (Suc q) xss))"
    let ?L = "length (xss ! q)"
    have split: "?N = prod_list (map length (take q xss)) * (?L * ?M)"
    proof -
      have "xss = take q xss @ xss ! q # drop (Suc q) xss" using q by (rule id_take_nth_drop)
      then have "?N = prod_list (map length (take q xss @ xss ! q # drop (Suc q) xss))" by simp
      then show ?thesis by (simp del: append_take_drop_id)
    qed
    have "product_lists (xs # xss) ! j ! p = product_lists xss ! (j mod ?N) ! q"
      using row Suc by simp
    also have "\<dots> = (xss ! q) ! (((j mod ?N) div ?M) mod ?L)"
      using Cons.IH[of "j mod ?N" q] N q by simp
    also have "((j mod ?N) div ?M) mod ?L = (j div ?M) mod ?L"
    proof -
      have "?N = ?M * (?L * prod_list (map length (take q xss)))"
        using split by (simp add: mult_ac)
      moreover have "0 < ?M" using N split by (cases ?M) simp_all
      ultimately have "(j mod ?N) div ?M = (j div ?M) mod (?L * prod_list (map length (take q xss)))"
        by (simp add: mod_mult2_eq[of j ?M])
      then show ?thesis by (simp add: mod_mult2_eq)
    qed
    finally show ?thesis using Suc by simp
  qed
qed

lemma dict_setitem_fresh:
  "k \<notin> fst ` set d \<Longrightarrow> dict_setitem d k v = d @ [(k, v)]"
  unfolding dict_setitem_def by (induction d) auto

lemma py_dict_distinct_acc:
  "distinct (map fst (acc @ pairs)) \<Longrightarrow>
   foldl (\<lambda>d (k, v). dict_setitem d k v) acc pairs = acc @ pairs"
proof (induction pairs arbitrary: acc)
  case Nil
  then show ?case by simp
next
  case (Cons p pairs)
  obtain k v where p: "p = (k, v)" by (cases p)
  have "k \<notin> fst ` set acc" using Cons.prems p by auto
  then have "dict_setitem acc k v = acc @ [(k, v)]" by (rule dict_setitem_fresh)
  moreover have "distinct (map fst ((acc @ [(k, v)]) @ pairs))" using Cons.prems p by simp
  ultimately show ?case using Cons.IH[of "acc @ [(k, v)]"] p by simp
qed

lemma py_dict_distinct: "distinct (map fst pairs) \<Longrightarrow> py_dict pairs = pairs"
  using py_dict_distinct_acc[of "[]" pairs] by (simp add: py_dict_def)

lemma assemble_values_acc:
  assumes "distinct (map fst d)" and "d = pre @ suf"
  shows "foldl (\<lambda>ret key. case map_of d key of
                    Some sub \<Rightarrow> dict_setitem ret key (g sub)
                  | None \<Rightarrow> ret) (map (\<lambda>(k, v). (k, g v)) pre) (map fst suf)
         = map (\<lambda>(k, v). (k, g v)) d"
  using assms(2)
proof (induction suf arbitrary: pre)
  case Nil
  then show ?case by simp
next
  case (Cons p suf)
  obtain k v where p: "p = (k, v)" by (cases p)
  have "(k, v) \<in> set d" using Cons.prems p by simp
  then have look: "map_of d k = Some v" using assms(1) by (rule map_of_is_SomeI[rotated]) 
  have "k \<notin> fst ` set pre" using assms(1) Cons.prems p by auto
  then have "k \<notin> fst ` set (map (\<lambda>(k, v). (k, g v)) pre)" by (auto simp: image_iff)
  then have "dict_setitem (map (\<lambda>(k, v). (k, g v)) pre) k (g v)
           = map (\<lambda>(k, v). (k, g v)) (pre @ [(k, v)])"
    by (simp add: dict_setitem_fresh)
  moreover have "d = (pre @ [(k, v)]) @ suf" using Cons.prems p by simp
  ultimately show ?case using Cons.IH[of "pre @ [(k, v)]"] look p by simp
qed

lemma assemble_mapping:
  assumes "distinct (map fst d)"
  shows "assemble (PDict d)
       = map (\<lambda>item. PDict (zip (map fst d) item)) (product_lists (map (\<lambda>(k, v). assemble v) d))"
proof -
  have ret: "foldl (\<lambda>ret key. case map_of d key of
                    Some sub \<Rightarrow> dict_setitem ret key (assemble sub)
                  | None \<Rightarrow> ret) [] (map fst d) = map (\<lambda>(k, v). (k, assemble v)) d"
    using assemble_values_acc[OF assms, of "[]" d assemble] by simp
  have fst: "map fst (map (\<lambda>(k, v). (k, assemble v)) d) = map fst d"
    by (induction d) auto
  have snd: "map snd (map (\<lambda>(k, v). (k, assemble v)) d) = map (\<lambda>(k, v). assemble v) d"
    by (induction d) auto
  have pd: "py_dict (zip (map fst d) item) = zip (map fst d) item" for item
  proof (rule py_dict_distinct)
    show "distinct (map fst (zip (map fst d) item))"
      using assms by (simp add: distinct_take map_fst_zip_take)
  qed
  show ?thesis
    by (simp add: ret fst snd pd itertools_product_eq Let_def assemble.simps(2) del: map_map)
qed

lemma product_lists_singletons: "product_lists (map (\<lambda>x. [x]) xs) = [xs]"
  by (induction xs) simp_all

declare assemble.simps(1,2,3) [simp del]

subsection \<open>Option nodes\<close>

text \<open>
  Claim C1.  An option node expands to the concatenation of the expansions of its
  alternatives, in the order of the alternatives; the number of its combinations is
  therefore the sum of the numbers of theirs, not their product.
\<close>

theorem option_node_concatenates:
  "assemble (PTuple alternatives) = concat (map assemble alternatives) \<and>
   length (assemble (PTuple alternatives)) = sum_list (map (\<lambda>a. length (assemble a)) alternatives)"
  by (simp add: assemble_option length_concat comp_def)

subsection \<open>Sequence nodes\<close>

text \<open>
  Claim C2.  A sequence node with the children \<open>cs\<close> expands to as many combinations as
  the product of the numbers of combinations of its children.  Each combination is a list
  as long as \<open>cs\<close>.  The combination at index \<open>j\<close> holds at position \<open>p\<close> the
  combination of child \<open>p\<close> whose index is the digit of \<open>j\<close> in the mixed-radix system
  in which the last child is the least significant position: the rightmost child varies
  fastest, the leftmost slowest.
\<close>

theorem sequence_node_cross_product:
  "length (assemble (PList cs)) = prod_list (map (\<lambda>c. length (assemble c)) cs) \<and>
   (\<forall>j < length (assemble (PList cs)).
      \<exists>item. assemble (PList cs) ! j = PList item \<and> length item = length cs \<and>
        (\<forall>p < length cs.
           item ! p = assemble (cs ! p) !
             ((j div prod_list (map (\<lambda>c. length (assemble c)) (drop (Suc p) cs)))
               mod length (assemble (cs ! p)))))"
proof -
  let ?pools = "map assemble cs"
  have len: "length (product_lists ?pools) = prod_list (map (\<lambda>c. length (assemble c)) cs)"
    by (simp add: length_product_lists_prod comp_def)
  have item: "length (product_lists ?pools ! j) = length cs \<and>
      (\<forall>p < length cs. product_lists ?pools ! j ! p = assemble (cs ! p) !
         ((j div prod_list (map (\<lambda>c. length (assemble c)) (drop (Suc p) cs)))
           mod length (assemble (cs ! p))))"
    if j: "j < length (product_lists ?pools)" for j
  proof -
    have "product_lists ?pools ! j \<in> set (product_lists ?pools)" using j by simp
    then have "length (product_lists ?pools ! j) = length cs"
      using in_set_product_lists_length by fastforce
    moreover have "product_lists ?pools ! j ! p = assemble (cs ! p) !
         ((j div prod_list (map (\<lambda>c. length (assemble c)) (drop (Suc p) cs)))
           mod length (assemble (cs ! p)))" if "p < length cs" for p
      using product_lists_nth[of j ?pools p] j that
      by (simp add: length_product_lists_prod comp_def drop_map)
    ultimately show ?thesis by simp
  qed
  show ?thesis
  proof (intro conjI allI impI)
    show "length (assemble (PList cs)) = prod_list (map (\<lambda>c. length (assemble c)) cs)"
      by (simp add: assemble_sequence len)
  next
    fix j
    assume "j < length (assemble (PList cs))"
    then have j: "j < length (product_lists ?pools)"
      by (simp add: assemble_sequence)
    then have "assemble (PList cs) ! j = PList (product_lists ?pools ! j)"
      by (simp add: assemble_sequence)
    with item[OF j]
    show "\<exists>item. assemble (PList cs) ! j = PList item \<and> length item = length cs \<and>
        (\<forall>p < length cs.
           item ! p = assemble (cs ! p) !
             ((j div prod_list (map (\<lambda>c. length (assemble c)) (drop (Suc p) cs)))
               mod length (assemble (cs ! p))))"
      by blast
  qed
qed

theorem sequence_node_cross_product_witness:
  "length (assemble (PList [PTuple [PInt 1, PInt 2], PTuple [PInt 3, PInt 4, PInt 5]])) = 6 \<and>
   (\<exists>item. assemble (PList [PTuple [PInt 1, PInt 2], PTuple [PInt 3, PInt 4, PInt 5]]) ! 4
             = PList item \<and> length item = 2 \<and> item ! 0 = PInt 2 \<and> item ! 1 = PInt 4)"
proof -
  let ?cs = "[PTuple [PInt 1, PInt 2], PTuple [PInt 3, PInt 4, PInt 5]]"
  have n: "prod_list (map (\<lambda>c. length (assemble c)) ?cs) = 6"
    by (simp add: assemble_option)
  note inst = sequence_node_cross_product[of ?cs]
  have len: "length (assemble (PList ?cs)) = 6"
    using conjunct1[OF inst] n by simp
  then have "4 < length (assemble (PList ?cs))" by simp
  with conjunct2[OF inst] obtain item where item: "assemble (PList ?cs) ! 4 = PList item"
    "length item = length ?cs"
    "\<forall>p < length ?cs. item ! p = assemble (?cs ! p) !
             ((4 div prod_list (map (\<lambda>c. length (assemble c)) (drop (Suc p) ?cs)))
               mod length (assemble (?cs ! p)))"
    by blast
  have "item ! 0 = PInt 2"
    using item(3)[rule_format, of 0] by (simp add: assemble_option)
  moreover have "item ! 1 = PInt 4"
    using item(3)[rule_format, of 1] by (simp add: assemble_option)
  ultimately show ?thesis using len item(1,2) by simp
qed

subsection \<open>Specifications without options\<close>

text \<open>
  Claim C6.  A specification tree without option nodes, whose dicts name each key once,
  expands to exactly one concrete specification, which is the tree itself.
\<close>

theorem option_free_expands_to_itself:
  "no_options v \<Longrightarrow> distinct_keys v \<Longrightarrow> assemble v = [v]"
proof (induction v)
  case (PTuple xs)
  then show ?case by simp
next
  case (PList xs)
  have eq: "map assemble xs = map (\<lambda>x. [x]) xs"
    using PList by (intro map_cong) (auto simp: list_all_iff)
  show ?case by (simp add: assemble_sequence eq product_lists_singletons)
next
  case (PDict d)
  have d: "distinct (map fst d)" using PDict.prems by simp
  have ih: "assemble v = [v]" if "(k, v) \<in> set d" for k v
  proof -
    have "no_options v" "distinct_keys v"
      using that PDict.prems by (auto simp: list_all_iff)
    moreover have "v \<in> Basic_BNFs.snds (k, v)" by simp
    ultimately show ?thesis using PDict.IH that by blast
  qed
  have eq: "map (\<lambda>(k, v). assemble v) d = map (\<lambda>x. [x]) (map snd d)"
    using ih by (auto intro!: map_cong) 
  show ?case
    by (simp add: assemble_mapping[OF d] eq product_lists_singletons zip_map_fst_snd del: map_map)
qed simp_all

theorem option_free_expands_to_itself_witness:
  "no_options (PList [PDict [(PStr ''function'', PFun 0), (PStr ''in'', PList [PInt 0]),
                             (PStr ''out'', PList [PInt 1])], PList []]) \<and>
   distinct_keys (PList [PDict [(PStr ''function'', PFun 0), (PStr ''in'', PList [PInt 0]),
                             (PStr ''out'', PList [PInt 1])], PList []]) \<and>
   assemble (PList [PDict [(PStr ''function'', PFun 0), (PStr ''in'', PList [PInt 0]),
                             (PStr ''out'', PList [PInt 1])], PList []])
   = [PList [PDict [(PStr ''function'', PFun 0), (PStr ''in'', PList [PInt 0]),
                             (PStr ''out'', PList [PInt 1])], PList []]]"
  using option_free_expands_to_itself
    [of "PList [PDict [(PStr ''function'', PFun 0), (PStr ''in'', PList [PInt 0]),
                             (PStr ''out'', PList [PInt 1])], PList []]"]
  by simp

subsection \<open>Empty containers\<close>

text \<open>
  Claim C7, as the code has it.  A dict or a list without children expands to exactly one
  combination, the empty container itself.  A tuple without alternatives is an option
  with nothing to choose from: it expands to no combination at all.
\<close>

theorem empty_containers:
  "assemble (PDict []) = [PDict []] \<and> assemble (PList []) = [PList []] \<and>
   assemble (PTuple []) = []"
  by (simp add: assemble.simps(1,2,3) itertools_product_def py_dict_def)

text \<open>The claim as stated fails for the empty tuple, which has zero combinations and not
  the one combination \<open>()\<close>.\<close>

theorem empty_tuple_has_no_combination:
  "assemble (PTuple []) \<noteq> [PTuple []] \<and> length (assemble (PTuple [])) = 0"
  by (simp add: assemble.simps(1))

section \<open>Properties of the executor\<close>

subsection \<open>Writing the outputs\<close>

lemma map_of_dict_setitem:
  "map_of (dict_setitem d k v) = (map_of d)(k \<mapsto> v)"
  by (simp add: dict_setitem_def update_conv')

lemma write_outputs_lookup:
  assumes "write_outputs vs (enumerate n outs) data = Inr data'"
  shows "(\<forall>p < length outs. (\<forall>q. p < q \<and> q < length outs \<longrightarrow> outs ! q \<noteq> outs ! p)
            \<longrightarrow> map_of data' (outs ! p) = Some (vs ! (n + p)))
       \<and> (\<forall>k. k \<notin> set outs \<longrightarrow> map_of data' k = map_of data k)"
  using assms
proof (induction outs arbitrary: n data)
  case Nil
  then show ?case by simp
next
  case (Cons out rest)
  from Cons.prems obtain data1 where
    get: "tuple_getitem vs n = Inr (vs ! n)" and
    set: "py_setitem data out (vs ! n) = Inr data1" and
    rest: "write_outputs vs (enumerate (Suc n) rest) data1 = Inr data'"
    by (auto simp: tuple_getitem_def split: sum.splits if_splits)
  from set have data1: "data1 = dict_setitem data out (vs ! n)"
    by (simp add: py_setitem_def split: if_splits)
  note ih = Cons.IH[OF rest]
  show ?case
  proof (intro conjI allI impI)
    fix p
    assume p: "p < length (out # rest)"
      and last: "\<forall>q. p < q \<and> q < length (out # rest) \<longrightarrow> (out # rest) ! q \<noteq> (out # rest) ! p"
    show "map_of data' ((out # rest) ! p) = Some (vs ! (n + p))"
    proof (cases p)
      case 0
      have "out \<notin> set rest"
      proof
        assume "out \<in> set rest"
        then obtain i where "i < length rest" "rest ! i = out"
          by (auto simp: in_set_conv_nth)
        with last 0 show False by (auto dest: spec[of _ "Suc i"])
      qed
      with ih have "map_of data' out = map_of data1 out" by simp
      then show ?thesis using 0 data1 by (simp add: map_of_dict_setitem)
    next
      case (Suc p')
      with p have p': "p' < length rest" by simp
      have "\<forall>q. p' < q \<and> q < length rest \<longrightarrow> rest ! q \<noteq> rest ! p'"
      proof (intro allI impI)
        fix q assume "p' < q \<and> q < length rest"
        with last Suc show "rest ! q \<noteq> rest ! p'" by (auto dest: spec[of _ "Suc q"])
      qed
      with ih p' have "map_of data' (rest ! p') = Some (vs ! (Suc n + p'))" by blast
      then show ?thesis using Suc by simp
    qed
  next
    fix k
    assume "k \<notin> set (out # rest)"
    then have "k \<noteq> out" "k \<notin> set rest" by simp_all
    with ih have "map_of data' k = map_of data1 k" by simp
    then show "map_of data' k = map_of data k"
      using \<open>k \<noteq> out\<close> data1 by (simp add: map_of_dict_setitem)
  qed
qed

lemma write_outputs_succeeds:
  assumes "list_all py_hashable outs" and "n + length outs \<le> length vs"
  shows "\<exists>data'. write_outputs vs (enumerate n outs) data = Inr data'"
  using assms
proof (induction outs arbitrary: n data)
  case Nil
  then show ?case by simp
next
  case (Cons out rest)
  then have "list_all py_hashable rest" "Suc n + length rest \<le> length vs" by simp_all
  from Cons.IH[OF this] Cons.prems show ?case
    by (simp add: tuple_getitem_def py_setitem_def)
qed

text \<open>
  Claim C5.  Let the function of a stage return \<open>r\<close> and let the \<open>out\<close> list of the
  stage consist of hashable identifiers.  If \<open>r\<close> is a tuple at least as long as the
  \<open>out\<close> list, the stage succeeds, every identifier is bound to the element of \<open>r\<close>
  at its (last) position in the \<open>out\<close> list, and nothing else changes: the elements of
  \<open>r\<close> beyond the length of the \<open>out\<close> list are dropped without an error.  If
  \<open>r\<close> is not a tuple and there is a single \<open>out\<close> identifier, it is bound to
  \<open>r\<close> itself.
\<close>

theorem stage_outputs_bound_positionally:
  assumes "stage_call call stage data = Inr r"
    and "stage_out stage = Inr outs"
    and "list_all py_hashable outs"
  shows "(\<forall>vs. r = PTuple vs \<longrightarrow> length outs \<le> length vs \<longrightarrow>
           (\<exists>data'. run_stage call stage data = Inr data' \<and>
              (\<forall>p < length outs. (\<forall>q. p < q \<and> q < length outs \<longrightarrow> outs ! q \<noteq> outs ! p)
                 \<longrightarrow> map_of data' (outs ! p) = Some (vs ! p)) \<and>
              (\<forall>k. k \<notin> set outs \<longrightarrow> map_of data' k = map_of data k)))
       \<and> ((\<forall>vs. r \<noteq> PTuple vs) \<longrightarrow> (\<forall>out. outs = [out] \<longrightarrow>
           (\<exists>data'. run_stage call stage data = Inr data' \<and> map_of data' out = Some r \<and>
              (\<forall>k. k \<noteq> out \<longrightarrow> map_of data' k = map_of data k))))"
proof (intro conjI allI impI)
  fix vs
  assume r: "r = PTuple vs" and len: "length outs \<le> length vs"
  have run: "run_stage call stage data = write_outputs vs (enumerate 0 outs) data"
    using assms(1,2) r by (simp add: run_stage_def)
  from write_outputs_succeeds[OF assms(3), of 0 vs data] len
  obtain data' where w: "write_outputs vs (enumerate 0 outs) data = Inr data'" by auto
  from write_outputs_lookup[OF w] run w
  show "\<exists>data'. run_stage call stage data = Inr data' \<and>
              (\<forall>p < length outs. (\<forall>q. p < q \<and> q < length outs \<longrightarrow> outs ! q \<noteq> outs ! p)
                 \<longrightarrow> map_of data' (outs ! p) = Some (vs ! p)) \<and>
              (\<forall>k. k \<notin> set outs \<longrightarrow> map_of data' k = map_of data k)"
    by simp
next
  fix out
  assume r: "\<forall>vs. r \<noteq> PTuple vs" and outs: "outs = [out]"
  then have norm: "normalize_outputs r = [r]" by (cases r) simp_all
  have "py_hashable out" using assms(3) outs by simp
  then have "run_stage call stage data = Inr (dict_setitem data out r)"
    using assms(1,2) outs norm
    by (simp add: run_stage_def tuple_getitem_def py_setitem_def)
  then show "\<exists>data'. run_stage call stage data = Inr data' \<and> map_of data' out = Some r \<and>
              (\<forall>k. k \<noteq> out \<longrightarrow> map_of data' k = map_of data k)"
    by (simp add: map_of_dict_setitem)
qed

theorem stage_outputs_bound_positionally_witness:
  "(\<exists>data'. run_stage example_call
       (PDict [(PStr ''function'', PFun 1), (PStr ''in'', PList []),
               (PStr ''out'', PList [PStr ''a'', PStr ''b''])]) [] = Inr data' \<and>
      map_of data' (PStr ''a'') = Some (PInt 7) \<and> map_of data' (PStr ''b'') = Some (PInt 8) \<and>
      map_of data' (PStr ''c'') = None) \<and>
   (\<exists>data'. run_stage example_call
       (PDict [(PStr ''function'', PFun 0), (PStr ''in'', PList [PInt 0]),
               (PStr ''out'', PList [PInt 1])]) [(PInt 0, PInt 10)] = Inr data' \<and>
      map_of data' (PInt 1) = Some (PInt 11))"
proof -
  let ?multi = "PDict [(PStr ''function'', PFun 1), (PStr ''in'', PList []),
               (PStr ''out'', PList [PStr ''a'', PStr ''b''])]"
  let ?single = "PDict [(PStr ''function'', PFun 0), (PStr ''in'', PList [PInt 0]),
               (PStr ''out'', PList [PInt 1])]"
  have m1: "stage_call example_call ?multi [] = Inr (PTuple [PInt 7, PInt 8, PInt 9])"
    by (simp add: stage_call_def py_getitem_def example_call_def)
  have m2: "stage_out ?multi = Inr [PStr ''a'', PStr ''b'']"
    by (simp add: stage_out_def py_getitem_def)
  have m3: "list_all py_hashable [PStr ''a'', PStr ''b'']" by simp
  from stage_outputs_bound_positionally[OF m1 m2 m3]
  obtain data' where d: "run_stage example_call ?multi [] = Inr data'"
    "\<forall>p < length [PStr ''a'', PStr ''b''].
        (\<forall>q. p < q \<and> q < length [PStr ''a'', PStr ''b'']
            \<longrightarrow> [PStr ''a'', PStr ''b''] ! q \<noteq> [PStr ''a'', PStr ''b''] ! p)
        \<longrightarrow> map_of data' ([PStr ''a'', PStr ''b''] ! p) = Some ([PInt 7, PInt 8, PInt 9] ! p)"
    "\<forall>k. k \<notin> set [PStr ''a'', PStr ''b''] \<longrightarrow> map_of data' k = map_of [] k"
    by force
  have "\<forall>q. 0 < q \<and> q < length [PStr ''a'', PStr ''b'']
            \<longrightarrow> [PStr ''a'', PStr ''b''] ! q \<noteq> [PStr ''a'', PStr ''b''] ! 0"
    by (auto simp: less_Suc_eq)
  then have "map_of data' (PStr ''a'') = Some (PInt 7)"
    using d(2)[THEN spec, of 0] by simp
  moreover have "map_of data' (PStr ''b'') = Some (PInt 8)"
    using d(2)[THEN spec, of 1] by auto
  moreover have "map_of data' (PStr ''c'') = None"
    using d(3)[rule_format, of "PStr ''c''"] by simp
  ultimately have multi: "\<exists>data'. run_stage example_call ?multi [] = Inr data' \<and>
      map_of data' (PStr ''a'') = Some (PInt 7) \<and> map_of data' (PStr ''b'') = Some (PInt 8) \<and>
      map_of data' (PStr ''c'') = None"
    using d(1) by blast
  have s1: "stage_call example_call ?single [(PInt 0, PInt 10)] = Inr (PInt 11)"
    by (simp add: stage_call_def py_getitem_def example_call_def)
  have s2: "stage_out ?single = Inr [PInt 1]"
    by (simp add: stage_out_def py_getitem_def)
  have s3: "list_all py_hashable [PInt 1]" by simp
  from stage_outputs_bound_positionally[OF s1 s2 s3]
  have "\<exists>data'. run_stage example_call ?single [(PInt 0, PInt 10)] = Inr data' \<and>
      map_of data' (PInt 1) = Some (PInt 11)"
    by blast
  with multi show ?thesis by (rule conjI)
qed

subsection \<open>Stages that write the same sink\<close>

lemma run_stages_split:
  assumes "run_stages call (xs @ st # ys) data = Inr final"
  shows "\<exists>data1 data2. run_stages call xs data = Inr data1 \<and>
           run_stage call st data1 = Inr data2 \<and> run_stages call ys data2 = Inr final"
  using assms
proof (induction xs arbitrary: data)
  case Nil
  then show ?case by (cases "run_stage call st data") simp_all
next
  case (Cons x xs)
  then show ?case by (cases "run_stage call x data") simp_all
qed

lemma run_stage_InrD:
  assumes "run_stage call stage data = Inr data'"
  obtains r outs where "stage_call call stage data = Inr r" and "stage_out stage = Inr outs"
    and "write_outputs (normalize_outputs r) (enumerate 0 outs) data = Inr data'"
  using assms by (auto simp: run_stage_def split: sum.splits)

lemma run_stages_untouched:
  assumes "run_stages call stages data = Inr data'"
    and "\<forall>st \<in> set stages. \<forall>outs. stage_out st = Inr outs \<longrightarrow> s \<notin> set outs"
  shows "map_of data' s = map_of data s"
  using assms
proof (induction stages arbitrary: data)
  case Nil
  then show ?case by simp
next
  case (Cons st stages)
  from Cons.prems(1) obtain data1 where
    st: "run_stage call st data = Inr data1" and rest: "run_stages call stages data1 = Inr data'"
    by (cases "run_stage call st data") simp_all
  from st obtain r outs where outs: "stage_out st = Inr outs"
    and w: "write_outputs (normalize_outputs r) (enumerate 0 outs) data = Inr data1"
    by (rule run_stage_InrD)
  have "s \<notin> set outs" using Cons.prems(2) outs by simp
  with write_outputs_lookup[OF w] have "map_of data1 s = map_of data s" by simp
  moreover have "map_of data' s = map_of data1 s"
    using Cons.IH[OF rest] Cons.prems(2) by simp
  ultimately show ?case by simp
qed

lemma last_position:
  assumes "s \<in> set outs"
  shows "\<exists>p < length outs. outs ! p = s \<and> (\<forall>q. p < q \<and> q < length outs \<longrightarrow> outs ! q \<noteq> s)"
proof -
  from assms obtain ys zs where split: "outs = ys @ s # zs" and last: "s \<notin> set zs"
    by (auto dest: split_list_last)
  have "outs ! q \<noteq> s" if "length ys < q" "q < length outs" for q
  proof -
    from that split have "outs ! q = zs ! (q - Suc (length ys))" and "q - Suc (length ys) < length zs"
      by (auto simp: nth_append nth_Cons')
    with last show ?thesis by (metis nth_mem)
  qed
  moreover have "length ys < length outs" "outs ! length ys = s" using split by simp_all
  ultimately show ?thesis by blast
qed

text \<open>
  Claim C4.  In a successful run of a flat stage list in which an earlier and a later
  stage both list the sink \<open>s\<close> in their \<open>out\<close> lists, and no stage after the later
  one does, the final environment binds \<open>s\<close> to what the later stage wrote: the element,
  at the last position of \<open>s\<close> in its \<open>out\<close> list, of the outputs that its function
  returned on the environment left by the stages before it.
\<close>

theorem last_writer_wins:
  assumes run: "run_stages call (pre @ earlier # mid @ later # post) data0 = Inr final"
    and "stage_out earlier = Inr outs1" and "s \<in> set outs1"
    and outs2: "stage_out later = Inr outs2" and s2: "s \<in> set outs2"
    and post: "\<forall>st \<in> set post. \<forall>outs. stage_out st = Inr outs \<longrightarrow> s \<notin> set outs"
  shows "\<exists>data r p. run_stages call (pre @ earlier # mid) data0 = Inr data \<and>
           stage_call call later data = Inr r \<and>
           p < length outs2 \<and> outs2 ! p = s \<and>
           (\<forall>q. p < q \<and> q < length outs2 \<longrightarrow> outs2 ! q \<noteq> s) \<and>
           map_of final s = Some (normalize_outputs r ! p)"
proof -
  from run have "run_stages call ((pre @ earlier # mid) @ later # post) data0 = Inr final"
    by simp
  then obtain data data2 where
    before: "run_stages call (pre @ earlier # mid) data0 = Inr data" and
    this_stage: "run_stage call later data = Inr data2" and
    after: "run_stages call post data2 = Inr final"
    using run_stages_split by blast
  from this_stage obtain r outs where r: "stage_call call later data = Inr r"
    and outs: "stage_out later = Inr outs"
    and w: "write_outputs (normalize_outputs r) (enumerate 0 outs) data = Inr data2"
    by (rule run_stage_InrD)
  from outs outs2 have [simp]: "outs = outs2" by simp
  from last_position[OF s2] obtain p where p: "p < length outs2" "outs2 ! p = s"
    "\<forall>q. p < q \<and> q < length outs2 \<longrightarrow> outs2 ! q \<noteq> s"
    by blast
  from write_outputs_lookup[OF w] p have "map_of data2 s = Some (normalize_outputs r ! p)"
    by auto
  moreover have "map_of final s = map_of data2 s"
    using run_stages_untouched[OF after post] .
  ultimately show ?thesis using before r p by auto
qed

theorem last_writer_wins_witness:
  "run_stages example_call
     [PDict [(PStr ''function'', PFun 0), (PStr ''in'', PList [PInt 0]), (PStr ''out'', PList [PInt 1])],
      PDict [(PStr ''function'', PFun 1), (PStr ''in'', PList []), (PStr ''out'', PList [PStr ''a'', PInt 1])],
      PDict [(PStr ''function'', PFun 0), (PStr ''in'', PList [PInt 0]), (PStr ''out'', PList [PInt 2])]]
     [(PInt 0, PInt 10)]
   = Inr [(PInt 0, PInt 10), (PInt 1, PInt 8), (PStr ''a'', PInt 7), (PInt 2, PInt 11)] \<and>
   map_of [(PInt 0, PInt 10), (PInt 1, PInt 8), (PStr ''a'', PInt 7), (PInt 2, PInt 11)] (PInt 1)
   = Some (normalize_outputs (PTuple [PInt 7, PInt 8, PInt 9]) ! 1)"
proof -
  let ?earlier = "PDict [(PStr ''function'', PFun 0), (PStr ''in'', PList [PInt 0]), (PStr ''out'', PList [PInt 1])]"
  let ?later = "PDict [(PStr ''function'', PFun 1), (PStr ''in'', PList []), (PStr ''out'', PList [PStr ''a'', PInt 1])]"
  let ?third = "PDict [(PStr ''function'', PFun 0), (PStr ''in'', PList [PInt 0]), (PStr ''out'', PList [PInt 2])]"
  let ?final = "[(PInt 0, PInt 10), (PInt 1, PInt 8), (PStr ''a'', PInt 7), (PInt 2, PInt 11)]"
  have run: "run_stages example_call ([] @ ?earlier # [] @ ?later # [?third]) [(PInt 0, PInt 10)] = Inr ?final"
    by (simp add: run_stage_def stage_call_def stage_out_def py_getitem_def py_setitem_def
        tuple_getitem_def example_call_def dict_setitem_def enumerate_eq_zip upt_rec)
  have o1: "stage_out ?earlier = Inr [PInt 1]" by (simp add: stage_out_def py_getitem_def)
  have o2: "stage_out ?later = Inr [PStr ''a'', PInt 1]" by (simp add: stage_out_def py_getitem_def)
  have post: "\<forall>st \<in> set [?third]. \<forall>outs. stage_out st = Inr outs \<longrightarrow> PInt 1 \<notin> set outs"
    by (simp add: stage_out_def py_getitem_def)
  from last_writer_wins[OF run o1 _ o2 _ post]
  obtain data r p where d: "run_stages example_call ([] @ ?earlier # []) [(PInt 0, PInt 10)] = Inr data"
    "stage_call example_call ?later data = Inr r" "p < length [PStr ''a'', PInt 1]"
    "[PStr ''a'', PInt 1] ! p = PInt 1" "map_of ?final (PInt 1) = Some (normalize_outputs r ! p)"
    by auto
  from d(3,4) have "p = 1" by (cases p) auto
  moreover from d(2) have "r = PTuple [PInt 7, PInt 8, PInt 9]"
    by (simp add: stage_call_def py_getitem_def example_call_def)
  ultimately show ?thesis using run d(5) by simp
qed

section \<open>Properties of the driver\<close>

subsection \<open>What a run can raise\<close>

text \<open>The interpreter raises only instances of \<open>Exception\<close> here, so a run raises
  something else only when a stage function does.\<close>

lemma py_getitem_exception: "py_getitem d k = Inl e \<Longrightarrow> is_exception e"
  by (auto simp: py_getitem_def split: if_splits option.splits)

lemma py_iter_exception: "py_iter v = Inl e \<Longrightarrow> is_exception e"
  by (cases v) auto

lemma resolve_inputs_exception: "resolve_inputs data inps = Inl e \<Longrightarrow> is_exception e"
proof (induction inps arbitrary: e)
  case Nil
  then show ?case by simp
next
  case (Cons inp inps)
  show ?case
  proof (cases "py_getitem data inp")
    case (Inl e')
    with Cons.prems show ?thesis by (auto dest: py_getitem_exception)
  next
    case (Inr v)
    with Cons.prems Cons.IH show ?thesis
      by (cases "resolve_inputs data inps") auto
  qed
qed

lemma keyword_arguments_exception: "keyword_arguments v = Inl e \<Longrightarrow> is_exception e"
  by (cases v) (auto split: if_splits)

lemma py_call_exception:
  assumes "\<forall>f args kwargs e. call f args kwargs = Inl e \<longrightarrow> is_exception e"
    and "py_call call f args kwargs = Inl e"
  shows "is_exception e"
  using assms by (cases f) auto

lemma stage_call_exception:
  assumes call: "\<forall>f args kwargs e. call f args kwargs = Inl e \<longrightarrow> is_exception e"
    and "stage_call call stage data = Inl e"
  shows "is_exception e"
proof (cases stage)
  case (PDict st)
  show ?thesis
  proof (cases "py_getitem st (PStr ''in'')")
    case (Inl e1)
    with assms(2) PDict show ?thesis by (auto simp: stage_call_def dest: py_getitem_exception)
  next
    case ins: (Inr ins)
    show ?thesis
    proof (cases "py_iter ins")
      case (Inl e2)
      with assms(2) PDict ins show ?thesis by (auto simp: stage_call_def dest: py_iter_exception)
    next
      case inps: (Inr inps)
      show ?thesis
      proof (cases "resolve_inputs data inps")
        case (Inl e3)
        with assms(2) PDict ins inps show ?thesis
          by (auto simp: stage_call_def dest: resolve_inputs_exception)
      next
        case inputs: (Inr inputs)
        show ?thesis
        proof (cases "py_getitem st (PStr ''function'')")
          case (Inl e4)
          with assms(2) PDict ins inps inputs show ?thesis
            by (auto simp: stage_call_def dest: py_getitem_exception split: if_splits)
        next
          case f: (Inr f)
          show ?thesis
          proof (cases "PStr ''kwargs'' \<in> set (map fst st)")
            case False
            with assms(2) PDict ins inps inputs f show ?thesis
              by (auto simp: stage_call_def intro: py_call_exception[OF call])
          next
            case True
            show ?thesis
            proof (cases "py_getitem st (PStr ''kwargs'')")
              case (Inl e5)
              with assms(2) PDict ins inps inputs f True show ?thesis
                by (auto simp: stage_call_def dest: py_getitem_exception)
            next
              case kw: (Inr kw)
              show ?thesis
              proof (cases "keyword_arguments kw")
                case (Inl e6)
                with assms(2) PDict ins inps inputs f True kw show ?thesis
                  by (auto simp: stage_call_def dest: keyword_arguments_exception)
              next
                case (Inr kws)
                with assms(2) PDict ins inps inputs f True kw show ?thesis
                  by (auto simp: stage_call_def intro: py_call_exception[OF call])
              qed
            qed
          qed
        qed
      qed
    qed
  qed
qed (use assms(2) in \<open>auto simp: stage_call_def\<close>)

lemma stage_out_exception: "stage_out stage = Inl e \<Longrightarrow> is_exception e"
proof (cases stage)
  case (PDict st)
  assume "stage_out stage = Inl e"
  with PDict show ?thesis
    by (cases "py_getitem st (PStr ''out'')")
       (auto simp: stage_out_def dest: py_getitem_exception py_iter_exception)
qed (auto simp: stage_out_def)

lemma write_outputs_exception:
  "write_outputs outputs ios data = Inl e \<Longrightarrow> is_exception e"
proof (induction outputs ios data rule: write_outputs.induct)
  case (1 outputs data)
  then show ?case by simp
next
  case (2 outputs i out rest data)
  show ?case
  proof (cases "tuple_getitem outputs i")
    case (Inl e')
    with "2.prems" show ?thesis by (auto simp: tuple_getitem_def split: if_splits)
  next
    case v: (Inr v)
    show ?thesis
    proof (cases "py_setitem data out v")
      case (Inl e')
      with "2.prems" v show ?thesis by (auto simp: py_setitem_def split: if_splits)
    next
      case (Inr data')
      with "2.prems" v "2.IH"[OF v Inr] show ?thesis by simp
    qed
  qed
qed

lemma run_stage_exception:
  assumes call: "\<forall>f args kwargs e. call f args kwargs = Inl e \<longrightarrow> is_exception e"
    and "run_stage call stage data = Inl e"
  shows "is_exception e"
proof (cases "stage_call call stage data")
  case (Inl e')
  with assms(2) show ?thesis
    by (auto simp: run_stage_def dest: stage_call_exception[OF call])
next
  case r: (Inr r)
  show ?thesis
  proof (cases "stage_out stage")
    case (Inl e')
    with assms(2) r show ?thesis by (auto simp: run_stage_def dest: stage_out_exception)
  next
    case (Inr outs)
    with assms(2) r show ?thesis by (auto simp: run_stage_def dest: write_outputs_exception)
  qed
qed

lemma run_stages_exception:
  assumes call: "\<forall>f args kwargs e. call f args kwargs = Inl e \<longrightarrow> is_exception e"
    and "run_stages call stages data = Inl e"
  shows "is_exception e"
  using assms(2)
proof (induction stages arbitrary: data)
  case Nil
  then show ?case by simp
next
  case (Cons st stages)
  show ?case
  proof (cases "run_stage call st data")
    case (Inl e')
    with Cons.prems show ?thesis by (auto dest: run_stage_exception[OF call])
  next
    case (Inr data')
    with Cons.prems Cons.IH show ?thesis by simp
  qed
qed

lemma run_pipeline_exception:
  assumes call: "\<forall>f args kwargs e. call f args kwargs = Inl e \<longrightarrow> is_exception e"
    and "run_pipeline call pipeline args kwargs = Inl e"
  shows "is_exception e"
proof (cases "''self'' \<in> set (map fst kwargs) \<or> ''pipeline'' \<in> set (map fst kwargs)")
  case True
  with assms(2) show ?thesis by (auto simp: run_pipeline_def)
next
  case False
  with assms(2) show ?thesis
    by (cases "run_stages call pipeline (initial_data pipeline args kwargs)")
       (auto simp: run_pipeline_def dest: run_stages_exception[OF call])
qed

subsection \<open>The loop over the combinations\<close>

lemma transform_loop_results:
  assumes flat: "\<forall>c \<in> set cs. \<exists>p. construct c = Inr p"
    and call: "\<forall>f args kwargs e. call f args kwargs = Inl e \<longrightarrow> is_exception e"
  shows "transform_loop call args kwargs cs acc
       = Inr (acc @ concat (map (\<lambda>c. case construct c of
                                     Inl e \<Rightarrow> []
                                   | Inr pipeline \<Rightarrow>
                                       (case run_pipeline call pipeline args kwargs of
                                          Inl e \<Rightarrow> []
                                        | Inr result \<Rightarrow> [result])) cs))"
  using flat
proof (induction cs arbitrary: acc)
  case Nil
  show ?case by simp
next
  case (Cons c cs)
  then obtain p where p: "construct c = Inr p" by auto
  have rest: "\<forall>c \<in> set cs. \<exists>p. construct c = Inr p" using Cons.prems by simp
  show ?case
  proof (cases "run_pipeline call p args kwargs")
    case (Inl e)
    then have "is_exception e" by (rule run_pipeline_exception[OF call])
    with Inl show ?thesis by (simp add: p Cons.IH[OF rest])
  next
    case (Inr result)
    then show ?thesis by (simp add: p Cons.IH[OF rest])
  qed
qed

lemma stage_out_lacking:
  "lacks_out stage \<Longrightarrow> stage_out stage = Inl (KeyError (PStr ''out''))"
proof (cases stage)
  case (PDict st)
  assume "lacks_out stage"
  with PDict have "map_of st (PStr ''out'') = None"
    by (simp add: map_of_eq_None_iff)
  with PDict show ?thesis by (simp add: stage_out_def py_getitem_def)
qed simp_all

lemma run_stage_lacking:
  assumes "lacks_out stage"
  shows "run_stage call stage data
       = (case stage_call call stage data of
            Inl e \<Rightarrow> Inl e
          | Inr r \<Rightarrow> Inl (KeyError (PStr ''out'')))"
  by (cases "stage_call call stage data")
     (simp_all add: run_stage_def stage_out_lacking[OF assms])

lemma run_stages_lacking:
  assumes "list_ex lacks_out stages"
  shows "\<exists>e. run_stages call stages data = Inl e"
  using assms
proof (induction stages arbitrary: data)
  case Nil
  then show ?case by simp
next
  case (Cons st stages)
  show ?case
  proof (cases "run_stage call st data")
    case (Inl e)
    then show ?thesis by simp
  next
    case (Inr data1)
    have "\<not> lacks_out st"
    proof
      assume "lacks_out st"
      from run_stage_lacking[OF this, of call data] Inr show False
        by (cases "stage_call call st data") simp_all
    qed
    with Cons.prems have "list_ex lacks_out stages" by simp
    from Cons.IH[OF this, of data1] Inr show ?thesis by simp
  qed
qed

lemma run_pipeline_lacking:
  assumes "list_ex lacks_out pipeline"
  shows "\<exists>e. run_pipeline call pipeline args kwargs = Inl e"
proof -
  from run_stages_lacking[OF assms]
  obtain e where "run_stages call pipeline (initial_data pipeline args kwargs) = Inl e" by blast
  then show ?thesis by (simp add: run_pipeline_def)
qed

lemma example_call_exception:
  "\<forall>f args kwargs e. example_call f args kwargs = Inl e \<longrightarrow> is_exception e"
  by (auto simp: example_call_def split: if_splits list.splits val.splits)

lemmas example_stages =
  stage_increment_def stage_triple_def stage_missing_sink_def stage_without_out_def
  stage_raising_without_out_def

lemmas executor_defs =
  run_pipeline_def initial_data_def run_stage_def stage_call_def stage_out_def
  py_getitem_def py_setitem_def tuple_getitem_def dict_setitem_def example_call_def

lemmas expander_eqs =
  assemble_option assemble_sequence assemble_mapping construct_def flatten_nested_list_def

text \<open>
  Claim C3, as the code has it.  Let every concrete specification be one that can be
  flattened, let no named input be called \<open>self\<close>, and let the stage functions raise
  nothing but instances of \<open>Exception\<close>.  Then \<open>transform\<close> returns the results of
  exactly those concrete specifications whose run succeeds, in the order of the
  expansion: a run that fails contributes nothing, and every other run is still made
  and contributes its result.
\<close>

theorem failed_combinations_are_skipped:
  assumes "''self'' \<notin> set (map fst kwargs)"
    and "\<forall>c \<in> set (assemble spec). \<exists>pipeline. construct c = Inr pipeline"
    and "\<forall>f a k e. call f a k = Inl e \<longrightarrow> is_exception e"
  shows "transform call spec args kwargs
       = Inr (concat (map (\<lambda>c. case construct c of
                                  Inl e \<Rightarrow> []
                                | Inr pipeline \<Rightarrow>
                                    (case run_pipeline call pipeline args kwargs of
                                       Inl e \<Rightarrow> []
                                     | Inr result \<Rightarrow> [result])) (assemble spec)))"
  using transform_loop_results[OF assms(2,3), of args kwargs "[]"] assms(1)
  by (simp add: transform_def)

theorem failed_combinations_are_skipped_witness:
  "transform example_call
     (PTuple [PList [stage_increment], PList [stage_missing_sink],
              PList [stage_increment, PList [stage_triple]]]) [PInt 10] []
   = Inr [PDict [(PStr ''pipeline'', PList [stage_increment]), (PInt 0, PInt 10), (PInt 1, PInt 11)],
          PDict [(PStr ''pipeline'', PList [stage_increment, stage_triple]), (PInt 0, PInt 10),
                 (PInt 1, PInt 11), (PStr ''a'', PInt 7), (PStr ''b'', PInt 8)]] \<and>
   run_pipeline example_call [stage_missing_sink] [PInt 10] []
   = Inl (KeyError (PStr ''undeclared''))"
proof -
  let ?spec = "PTuple [PList [stage_increment], PList [stage_missing_sink],
              PList [stage_increment, PList [stage_triple]]]"
  have expansion: "assemble ?spec = [PList [stage_increment], PList [stage_missing_sink],
              PList [stage_increment, PList [stage_triple]]]"
    by (simp add: expander_eqs example_stages)
  have names: "''self'' \<notin> set (map fst ([] :: (string \<times> val) list))" by simp
  have flat: "\<forall>c \<in> set (assemble ?spec). \<exists>pipeline. construct c = Inr pipeline"
    unfolding expansion by (simp add: construct_def flatten_nested_list_def)
  have missing: "run_pipeline example_call [stage_missing_sink] [PInt 10] []
      = Inl (KeyError (PStr ''undeclared''))"
    by (simp add: executor_defs example_stages)
  have first: "run_pipeline example_call [stage_increment] [PInt 10] []
      = Inr (PDict [(PStr ''pipeline'', PList [stage_increment]), (PInt 0, PInt 10), (PInt 1, PInt 11)])"
    by (simp add: executor_defs example_stages)
  have third: "run_pipeline example_call [stage_increment, stage_triple] [PInt 10] []
      = Inr (PDict [(PStr ''pipeline'', PList [stage_increment, stage_triple]), (PInt 0, PInt 10),
                 (PInt 1, PInt 11), (PStr ''a'', PInt 7), (PStr ''b'', PInt 8)])"
    by (simp add: executor_defs example_stages)
  have flat3: "construct (PList [stage_increment, PList [stage_triple]]) = Inr [stage_increment, stage_triple]"
    by (simp add: construct_def flatten_nested_list_def example_stages)
  have flat1: "construct (PList [stage_increment]) = Inr [stage_increment]"
    by (simp add: construct_def flatten_nested_list_def example_stages)
  have flat2: "construct (PList [stage_missing_sink]) = Inr [stage_missing_sink]"
    by (simp add: construct_def flatten_nested_list_def example_stages)
  from failed_combinations_are_skipped[OF names flat example_call_exception, of "[PInt 10]"]
  have "transform example_call ?spec [PInt 10] []
   = Inr [PDict [(PStr ''pipeline'', PList [stage_increment]), (PInt 0, PInt 10), (PInt 1, PInt 11)],
          PDict [(PStr ''pipeline'', PList [stage_increment, stage_triple]), (PInt 0, PInt 10),
                 (PInt 1, PInt 11), (PStr ''a'', PInt 7), (PStr ''b'', PInt 8)]]"
    unfolding expansion
    by (simp add: flat1 flat2 flat3 missing first third)
  then show ?thesis using missing by (rule conjI)
qed

text \<open>
  The claim as stated fails: \<open>__construct\<close> is called outside the \<open>try\<close>.  Of the
  three concrete specifications of \<open>([stage], 5, [stage])\<close> the first runs and succeeds,
  flattening the second raises a \<open>TypeError\<close>, and that exception leaves
  \<open>transform\<close>: the result of the first is lost and the third is never run.
\<close>

theorem flattening_failure_aborts_transform:
  "assemble (PTuple [PList [stage_increment], PInt 5, PList [stage_increment]])
   = [PList [stage_increment], PInt 5, PList [stage_increment]] \<and>
   run_pipeline example_call [stage_increment] [PInt 10] []
   = Inr (PDict [(PStr ''pipeline'', PList [stage_increment]), (PInt 0, PInt 10), (PInt 1, PInt 11)]) \<and>
   construct (PInt 5) = Inl TypeError \<and>
   transform example_call
     (PTuple [PList [stage_increment], PInt 5, PList [stage_increment]]) [PInt 10] []
   = Inl TypeError"
proof -
  have "assemble (PTuple [PList [stage_increment], PInt 5, PList [stage_increment]])
      = [PList [stage_increment], PInt 5, PList [stage_increment]]"
    by (simp add: expander_eqs example_stages)
  moreover have "run_pipeline example_call [stage_increment] [PInt 10] []
      = Inr (PDict [(PStr ''pipeline'', PList [stage_increment]), (PInt 0, PInt 10), (PInt 1, PInt 11)])"
    by (simp add: executor_defs example_stages)
  moreover have "construct (PInt 5) = Inl TypeError"
    by (simp add: construct_def flatten_nested_list_def)
  moreover have "transform example_call
     (PTuple [PList [stage_increment], PInt 5, PList [stage_increment]]) [PInt 10] []
   = Inl TypeError"
    by (simp add: transform_def expander_eqs executor_defs example_stages)
  ultimately show ?thesis by blast
qed

text \<open>
  Claim C9, as the code has it.  The expander does not inspect stages, so a stage dict
  without \<open>out\<close> passes expansion.  It fails when it is executed, and not before its
  function has been called: the run of such a stage ends with the exception of reading
  the inputs or of the function if there is one, and with the \<open>KeyError\<close> of
  \<open>stage['out']\<close> only when the function has returned.  The failure stays inside its
  combination: under the conditions of C3, \<open>transform\<close> returns, a combination whose
  stage list contains such a stage contributes no result, and every other combination is
  run and contributes its result if it succeeds.
\<close>

theorem missing_out_fails_its_combination_only:
  assumes "''self'' \<notin> set (map fst kwargs)"
    and "\<forall>c \<in> set (assemble spec). \<exists>pipeline. construct c = Inr pipeline"
    and "\<forall>f a k e. call f a k = Inl e \<longrightarrow> is_exception e"
  shows "transform call spec args kwargs
       = Inr (concat (map (\<lambda>c. case construct c of
                                  Inl e \<Rightarrow> []
                                | Inr pipeline \<Rightarrow>
                                    if list_ex lacks_out pipeline then []
                                    else (case run_pipeline call pipeline args kwargs of
                                            Inl e \<Rightarrow> []
                                          | Inr result \<Rightarrow> [result])) (assemble spec))) \<and>
         (\<forall>stage data. lacks_out stage \<longrightarrow>
            run_stage call stage data
            = (case stage_call call stage data of
                 Inl e \<Rightarrow> Inl e
               | Inr r \<Rightarrow> Inl (KeyError (PStr ''out''))))"
proof (intro conjI allI impI)
  have "(case run_pipeline call pipeline args kwargs of Inl e \<Rightarrow> [] | Inr result \<Rightarrow> [result])
      = (if list_ex lacks_out pipeline then []
         else (case run_pipeline call pipeline args kwargs of
                 Inl e \<Rightarrow> [] | Inr result \<Rightarrow> [result]))" for pipeline
    using run_pipeline_lacking[of pipeline call args kwargs] by auto
  then have "(\<lambda>c. case construct c of
                  Inl e \<Rightarrow> []
                | Inr pipeline \<Rightarrow>
                    (case run_pipeline call pipeline args kwargs of
                       Inl e \<Rightarrow> []
                     | Inr result \<Rightarrow> [result]))
           = (\<lambda>c. case construct c of
                  Inl e \<Rightarrow> []
                | Inr pipeline \<Rightarrow>
                    if list_ex lacks_out pipeline then []
                    else (case run_pipeline call pipeline args kwargs of
                            Inl e \<Rightarrow> []
                          | Inr result \<Rightarrow> [result]))"
    by (auto split: sum.splits)
  with transform_loop_results[OF assms(2,3), of args kwargs "[]"] assms(1)
  show "transform call spec args kwargs
       = Inr (concat (map (\<lambda>c. case construct c of
                                  Inl e \<Rightarrow> []
                                | Inr pipeline \<Rightarrow>
                                    if list_ex lacks_out pipeline then []
                                    else (case run_pipeline call pipeline args kwargs of
                                            Inl e \<Rightarrow> []
                                          | Inr result \<Rightarrow> [result])) (assemble spec)))"
    by (simp add: transform_def)
next
  fix stage data
  assume "lacks_out stage"
  then show "run_stage call stage data
            = (case stage_call call stage data of
                 Inl e \<Rightarrow> Inl e
               | Inr r \<Rightarrow> Inl (KeyError (PStr ''out'')))"
    by (rule run_stage_lacking)
qed

theorem missing_out_fails_its_combination_only_witness:
  "transform example_call
     (PTuple [PList [stage_without_out], PList [stage_raising_without_out],
              PList [stage_increment]]) [PInt 10] []
   = Inr [PDict [(PStr ''pipeline'', PList [stage_increment]), (PInt 0, PInt 10), (PInt 1, PInt 11)]] \<and>
   stage_call example_call stage_without_out [(PInt 0, PInt 10)] = Inr (PInt 11) \<and>
   run_stage example_call stage_without_out [(PInt 0, PInt 10)] = Inl (KeyError (PStr ''out'')) \<and>
   run_stage example_call stage_raising_without_out [(PInt 0, PInt 10)] = Inl (Raised 2)"
proof -
  let ?spec = "PTuple [PList [stage_without_out], PList [stage_raising_without_out],
              PList [stage_increment]]"
  have expansion: "assemble ?spec = [PList [stage_without_out], PList [stage_raising_without_out],
              PList [stage_increment]]"
    by (simp add: expander_eqs example_stages)
  have names: "''self'' \<notin> set (map fst ([] :: (string \<times> val) list))" by simp
  have flat: "\<forall>c \<in> set (assemble ?spec). \<exists>pipeline. construct c = Inr pipeline"
    unfolding expansion by (simp add: construct_def flatten_nested_list_def)
  have flat1: "construct (PList [stage_without_out]) = Inr [stage_without_out]"
    by (simp add: construct_def flatten_nested_list_def example_stages)
  have flat2: "construct (PList [stage_raising_without_out]) = Inr [stage_raising_without_out]"
    by (simp add: construct_def flatten_nested_list_def example_stages)
  have flat3: "construct (PList [stage_increment]) = Inr [stage_increment]"
    by (simp add: construct_def flatten_nested_list_def example_stages)
  have lacks: "lacks_out stage_without_out" "lacks_out stage_raising_without_out"
    "\<not> lacks_out stage_increment"
    by (simp_all add: example_stages)
  have third: "run_pipeline example_call [stage_increment] [PInt 10] []
      = Inr (PDict [(PStr ''pipeline'', PList [stage_increment]), (PInt 0, PInt 10), (PInt 1, PInt 11)])"
    by (simp add: executor_defs example_stages)
  have called: "stage_call example_call stage_without_out [(PInt 0, PInt 10)] = Inr (PInt 11)"
    by (simp add: stage_call_def py_getitem_def example_call_def example_stages)
  have raised: "stage_call example_call stage_raising_without_out [(PInt 0, PInt 10)] = Inl (Raised 2)"
    by (simp add: stage_call_def py_getitem_def example_call_def example_stages)
  note inst = missing_out_fails_its_combination_only[OF names flat example_call_exception, of "[PInt 10]"]
  have "transform example_call ?spec [PInt 10] []
   = Inr [PDict [(PStr ''pipeline'', PList [stage_increment]), (PInt 0, PInt 10), (PInt 1, PInt 11)]]"
    using conjunct1[OF inst] unfolding expansion by (simp add: flat1 flat2 flat3 lacks third)
  moreover have "run_stage example_call stage_without_out [(PInt 0, PInt 10)]
      = Inl (KeyError (PStr ''out''))"
    using conjunct2[OF inst, rule_format, OF lacks(1), of "[(PInt 0, PInt 10)]"] called by simp
  moreover have "run_stage example_call stage_raising_without_out [(PInt 0, PInt 10)]
      = Inl (Raised 2)"
    using conjunct2[OF inst, rule_format, OF lacks(2), of "[(PInt 0, PInt 10)]"] raised by simp
  ultimately show ?thesis using called by blast
qed

text \<open>
  The claim as stated fails: with a stage that has no \<open>out\<close>, expansion returns both
  concrete specifications, the function of the stage is called (when it raises, its
  exception is the one that ends the run), the \<open>KeyError\<close> of \<open>stage['out']\<close> ends the
  run of that combination only, and \<open>transform\<close> returns the result of the other one.
\<close>

theorem malformed_stage_is_not_fatal:
  "assemble (PTuple [PList [stage_without_out], PList [stage_increment]])
   = [PList [stage_without_out], PList [stage_increment]] \<and>
   stage_call example_call stage_without_out (initial_data [stage_without_out] [PInt 10] [])
   = Inr (PInt 11) \<and>
   run_pipeline example_call [stage_without_out] [PInt 10] [] = Inl (KeyError (PStr ''out'')) \<and>
   run_pipeline example_call [stage_raising_without_out] [PInt 10] [] = Inl (Raised 2) \<and>
   transform example_call
     (PTuple [PList [stage_without_out], PList [stage_increment]]) [PInt 10] []
   = Inr [PDict [(PStr ''pipeline'', PList [stage_increment]), (PInt 0, PInt 10), (PInt 1, PInt 11)]]"
proof -
  have "assemble (PTuple [PList [stage_without_out], PList [stage_increment]])
      = [PList [stage_without_out], PList [stage_increment]]"
    by (simp add: expander_eqs example_stages)
  moreover have "stage_call example_call stage_without_out
      (initial_data [stage_without_out] [PInt 10] []) = Inr (PInt 11)"
    by (simp add: executor_defs example_stages)
  moreover have "run_pipeline example_call [stage_without_out] [PInt 10] []
      = Inl (KeyError (PStr ''out''))"
    by (simp add: executor_defs example_stages)
  moreover have "run_pipeline example_call [stage_raising_without_out] [PInt 10] []
      = Inl (Raised 2)"
    by (simp add: executor_defs example_stages)
  moreover have "transform example_call
     (PTuple [PList [stage_without_out], PList [stage_increment]]) [PInt 10] []
   = Inr [PDict [(PStr ''pipeline'', PList [stage_increment]), (PInt 0, PInt 10), (PInt 1, PInt 11)]]"
    by (simp add: transform_def expander_eqs executor_defs example_stages)
  ultimately show ?thesis by blast
qed

subsection \<open>The reserved key\<close>

text \<open>The body of \<open>__run_pipeline\<close> binds \<open>'pipeline'\<close> to the stage list, whatever the
  named inputs are.\<close>

lemma initial_data_pipeline:
  "map_of (initial_data pipeline args kwargs) (PStr ''pipeline'') = Some (PList pipeline)"
proof -
  have "map_of (foldl (\<lambda>data (i, arg). dict_setitem data (PInt (int i)) arg) data (enumerate n args))
          (PStr ''pipeline'') = map_of data (PStr ''pipeline'')" for data n
    by (induction args arbitrary: data n) (simp_all add: map_of_dict_setitem)
  then show ?thesis by (simp add: initial_data_def map_of_dict_setitem)
qed

text \<open>
  Claim C10.  The body is not reached when the caller passes a named input
  \<open>pipeline\<close>: the call of \<open>__run_pipeline\<close> raises a \<open>TypeError\<close>, which
  \<open>transform\<close> catches, so that no combination yields a result.  With any other name the
  run succeeds and the environment holds the stage list under \<open>'pipeline'\<close>.
\<close>

theorem named_input_pipeline_is_rejected:
  "run_pipeline example_call [stage_increment] [PInt 10] [(''pipeline'', PInt 5)] = Inl TypeError \<and>
   transform example_call (PList [stage_increment]) [PInt 10] [(''pipeline'', PInt 5)] = Inr [] \<and>
   transform example_call (PList [stage_increment]) [PInt 10] [(''x'', PInt 5)]
   = Inr [PDict [(PStr ''x'', PInt 5), (PStr ''pipeline'', PList [stage_increment]),
                 (PInt 0, PInt 10), (PInt 1, PInt 11)]]"
proof -
  have "run_pipeline example_call [stage_increment] [PInt 10] [(''pipeline'', PInt 5)] = Inl TypeError"
    by (simp add: run_pipeline_def)
  moreover have "transform example_call (PList [stage_increment]) [PInt 10] [(''pipeline'', PInt 5)] = Inr []"
    by (simp add: transform_def expander_eqs example_stages run_pipeline_def)
  moreover have "transform example_call (PList [stage_increment]) [PInt 10] [(''x'', PInt 5)]
   = Inr [PDict [(PStr ''x'', PInt 5), (PStr ''pipeline'', PList [stage_increment]),
                 (PInt 0, PInt 10), (PInt 1, PInt 11)]]"
    by (simp add: transform_def expander_eqs executor_defs example_stages)
  ultimately show ?thesis by blast
qed

section \<open>Properties of the post-processing\<close>

lemma map_of_py_dict_acc:
  "map_of (foldl (\<lambda>d (k, v). dict_setitem d k v) acc pairs) = map_of (rev pairs @ acc)"
proof (induction pairs arbitrary: acc)
  case Nil
  show ?case by simp
next
  case (Cons p pairs)
  obtain k v where p: "p = (k, v)" by (cases p)
  have "map_of (rev pairs @ dict_setitem acc k v) = map_of (rev pairs @ (k, v) # acc)"
    by (simp add: map_of_dict_setitem)
  then show ?case using Cons.IH[of "dict_setitem acc k v"] p by simp
qed

lemma map_of_py_dict: "map_of (py_dict pairs) = map_of (rev pairs)"
  using map_of_py_dict_acc[of "[]" pairs] by (simp add: py_dict_def)

lemma flatten_pairs_acc:
  assumes "distinct (map fst d)" and "d = pre @ suf"
  shows "foldl (\<lambda>ret k.
                case map_of d k of
                  Some v \<Rightarrow>
                    (if is_dict_or_list v then (ret @ [(k, v)]) @ flatten_nested_dict v
                     else ret @ [(k, v)])
                | None \<Rightarrow> ret) acc (map fst suf)
       = acc @ concat (map (\<lambda>(k, v). (k, v) # promoted v) suf)"
  using assms(2)
proof (induction suf arbitrary: pre acc)
  case Nil
  show ?case by simp
next
  case (Cons p suf)
  obtain k v where p: "p = (k, v)" by (cases p)
  have "(k, v) \<in> set d" using Cons.prems p by simp
  then have look: "map_of d k = Some v" using assms(1) by (rule map_of_is_SomeI[rotated])
  have "d = (pre @ [(k, v)]) @ suf" using Cons.prems p by simp
  from Cons.IH[OF this] look p show ?case by (simp add: promoted_def)
qed

lemma flatten_nested_dict_pairs:
  assumes "distinct (map fst d)"
  shows "flatten_nested_dict (PDict d) = py_dict (concat (map (\<lambda>(k, v). (k, v) # promoted v) d))"
  using flatten_pairs_acc[OF assms, of "[]" d "[]"] by simp

lemma map_of_rev_distinct:
  assumes "distinct (map fst xs)"
  shows "map_of (rev xs) = map_of xs"
proof -
  have "distinct (map fst (rev xs))" using assms by (simp add: rev_map[symmetric])
  then show ?thesis using assms by (simp add: map_of_inject_set)
qed

lemma distinct_py_dict: "distinct (map fst (py_dict pairs))"
proof -
  have "distinct (map fst acc) \<Longrightarrow>
        distinct (map fst (foldl (\<lambda>d (k, v). dict_setitem d k v) acc pairs))" for acc
    by (induction pairs arbitrary: acc) (auto simp: dict_setitem_def distinct_update)
  from this[of "[]"] show ?thesis by (simp add: py_dict_def)
qed

lemma distinct_flatten_nested_dict: "distinct (map fst (flatten_nested_dict v))"
  by (cases v) (simp_all add: distinct_py_dict)

lemma flatten_nested_dict_elements:
  "flatten_nested_dict (PList xs) = py_dict (concat (map flatten_nested_dict xs))"
proof -
  have "foldl (\<lambda>ret i. ret @ flatten_nested_dict i) acc xs
      = acc @ concat (map flatten_nested_dict xs)" for acc
    by (induction xs arbitrary: acc) simp_all
  from this[of "[]"] show ?thesis by simp
qed

declare flatten_nested_dict.simps(1,2) [simp del]

lemma map_of_rev_concat_cong:
  assumes "\<And>x. x \<in> set xs \<Longrightarrow> map_of (rev (f x)) = map_of (rev (g x))"
  shows "map_of (rev (concat (map f xs))) = map_of (rev (concat (map g xs)))"
  using assms by (induction xs) simp_all

lemma traversal_entries_atom: "\<not> is_dict_or_list v \<Longrightarrow> traversal_entries v = []"
  by (cases v) simp_all

lemma map_of_flatten_nested_dict:
  "distinct_keys v \<Longrightarrow> map_of (flatten_nested_dict v) = map_of (rev (traversal_entries v))"
proof (induction v)
  case (PList xs)
  have "map_of (rev (flatten_nested_dict x)) = map_of (rev (traversal_entries x))"
    if "x \<in> set xs" for x
  proof -
    have "distinct_keys x" using that PList.prems by (simp add: list_all_iff)
    with PList.IH[OF that] show ?thesis
      by (simp add: map_of_rev_distinct distinct_flatten_nested_dict)
  qed
  then have "map_of (rev (concat (map flatten_nested_dict xs)))
           = map_of (rev (concat (map traversal_entries xs)))"
    by (rule map_of_rev_concat_cong)
  then show ?case by (simp add: flatten_nested_dict_elements map_of_py_dict)
next
  case (PDict d)
  have keys: "distinct (map fst d)" using PDict.prems by simp
  have "map_of (rev ((\<lambda>(k, v). (k, v) # promoted v) x))
      = map_of (rev ((\<lambda>(k, v). (k, v) # traversal_entries v) x))" if "x \<in> set d" for x
  proof -
    obtain k v where x: "x = (k, v)" by (cases x)
    have dk: "distinct_keys v" using that x PDict.prems by (auto simp: list_all_iff)
    have "map_of (rev (promoted v)) = map_of (rev (traversal_entries v))"
    proof (cases "is_dict_or_list v")
      case True
      have "v \<in> Basic_BNFs.snds (k, v)" by simp
      with PDict.IH that x dk have "map_of (flatten_nested_dict v) = map_of (rev (traversal_entries v))"
        by blast
      with True show ?thesis
        by (simp add: promoted_def map_of_rev_distinct distinct_flatten_nested_dict)
    next
      case False
      then show ?thesis by (simp add: promoted_def traversal_entries_atom)
    qed
    then show ?thesis using x by simp
  qed
  then have "map_of (rev (concat (map (\<lambda>(k, v). (k, v) # promoted v) d)))
           = map_of (rev (concat (map (\<lambda>(k, v). (k, v) # traversal_entries v) d)))"
    by (rule map_of_rev_concat_cong)
  then show ?case
    by (simp add: flatten_nested_dict_pairs[OF keys] map_of_py_dict)
qed (simp_all add: py_dict_def)

text \<open>
  Claim C8, as the code has it.  With \<open>flatten=True\<close> the keys of nested dicts and
  lists are promoted into one top-level dict in which, of the entries that share a key,
  the one seen last wins.  The traversal sees each item of a dict, then at once the
  entries of its value, then the next item, and the entries of the elements of a list in
  order.  The flattened result is a dict that binds every key of an entry of the
  traversal to the value of the last entry with that key, and binds no other key: a
  top-level key keeps its value against the entries seen before it and loses it to a
  colliding entry seen after it, be it a descendant of its own value or of a later item.
\<close>

theorem flatten_last_seen_wins:
  assumes "distinct_keys (PDict d)"
  shows "\<exists>flat. filter_results [d] None True = [flat] \<and> distinct (map fst flat) \<and>
           (\<forall>before k w after.
              traversal_entries (PDict d) = before @ (k, w) # after \<and> k \<notin> fst ` set after
              \<longrightarrow> map_of flat k = Some w) \<and>
           (\<forall>k. k \<notin> fst ` set (traversal_entries (PDict d)) \<longrightarrow> map_of flat k = None)"
proof -
  let ?flat = "flatten_nested_dict (PDict d)"
  let ?entries = "traversal_entries (PDict d)"
  have m: "map_of ?flat = map_of (rev ?entries)"
    using assms by (rule map_of_flatten_nested_dict)
  have last: "map_of ?flat k = Some w"
    if "?entries = before @ (k, w) # after \<and> k \<notin> fst ` set after" for before k w after
  proof -
    from that have "map_of (rev after) k = None"
      by (simp add: map_of_eq_None_iff)
    with that show ?thesis by (simp add: m map_add_def)
  qed
  have none: "map_of ?flat k = None" if "k \<notin> fst ` set ?entries" for k
    using that by (simp add: m map_of_eq_None_iff)
  have "filter_results [d] None True = [?flat]" by (simp add: filter_results_def)
  moreover have "distinct (map fst ?flat)" by (rule distinct_flatten_nested_dict)
  ultimately show ?thesis using last none by blast
qed

theorem flatten_last_seen_wins_witness:
  "\<exists>flat. filter_results
       [[(PStr ''a'', PInt 5), (PInt 0, PDict [(PStr ''a'', PInt 1), (PStr ''z'', PInt 2)]),
         (PStr ''b'', PInt 6)]] None True = [flat] \<and>
     map_of flat (PStr ''a'') = Some (PInt 1) \<and> map_of flat (PStr ''z'') = Some (PInt 2) \<and>
     map_of flat (PStr ''b'') = Some (PInt 6) \<and> map_of flat (PStr ''c'') = None"
proof -
  let ?nested = "PDict [(PStr ''a'', PInt 1), (PStr ''z'', PInt 2)]"
  let ?d = "[(PStr ''a'', PInt 5), (PInt 0, ?nested), (PStr ''b'', PInt 6)]"
  have keys: "distinct_keys (PDict ?d)" by simp
  have entries: "traversal_entries (PDict ?d)
      = [(PStr ''a'', PInt 5), (PInt 0, ?nested), (PStr ''a'', PInt 1), (PStr ''z'', PInt 2),
         (PStr ''b'', PInt 6)]"
    by simp
  from flatten_last_seen_wins[OF keys]
  obtain flat where flat: "filter_results [?d] None True = [flat]"
    and last: "\<And>before k w after.
        traversal_entries (PDict ?d) = before @ (k, w) # after \<and> k \<notin> fst ` set after
        \<Longrightarrow> map_of flat k = Some w"
    and none: "\<And>k. k \<notin> fst ` set (traversal_entries (PDict ?d)) \<Longrightarrow> map_of flat k = None"
    by blast
  have "map_of flat (PStr ''a'') = Some (PInt 1)"
    using last[of "[(PStr ''a'', PInt 5), (PInt 0, ?nested)]" "PStr ''a''" "PInt 1"
        "[(PStr ''z'', PInt 2), (PStr ''b'', PInt 6)]"]
    unfolding entries by simp
  moreover have "map_of flat (PStr ''z'') = Some (PInt 2)"
    using last[of "[(PStr ''a'', PInt 5), (PInt 0, ?nested), (PStr ''a'', PInt 1)]" "PStr ''z''"
        "PInt 2" "[(PStr ''b'', PInt 6)]"]
    unfolding entries by simp
  moreover have "map_of flat (PStr ''b'') = Some (PInt 6)"
    using last[of "[(PStr ''a'', PInt 5), (PInt 0, ?nested), (PStr ''a'', PInt 1), (PStr ''z'', PInt 2)]"
        "PStr ''b''" "PInt 6" "[]"]
    unfolding entries by simp
  moreover have "map_of flat (PStr ''c'') = None"
    using none[of "PStr ''c''"] unfolding entries by simp
  ultimately show ?thesis using flat by blast
qed

text \<open>
  The claim as stated fails: the top-level key \<open>'a'\<close> of \<open>{'a': {'a': 1}}\<close> ends up
  bound to the \<open>1\<close> of its descendant, and in \<open>{'a': 5, 0: {'a': 1}}\<close>, iterated in
  this order, the top-level \<open>5\<close> is replaced by the \<open>1\<close> promoted from the later item.
\<close>

theorem descendant_overrides_top_level_key:
  "filter_results [[(PStr ''a'', PDict [(PStr ''a'', PInt 1)])]] None True
   = [[(PStr ''a'', PInt 1)]] \<and>
   filter_results [[(PStr ''a'', PInt 5), (PInt 0, PDict [(PStr ''a'', PInt 1)])]] None True
   = [[(PStr ''a'', PInt 1), (PInt 0, PDict [(PStr ''a'', PInt 1)])]]"
  by (simp add: filter_results_def flatten_nested_dict.simps(1,2) py_dict_def dict_setitem_def)

end
